theory Spec2Isabelle
  imports Main
begin

section \<open>The graph\<close>

text \<open>
  The program builds one undirected \<^verbatim>\<open>networkx.Graph\<close> from a list of edges
  (\<^verbatim>\<open>G.add_edges_from(edges)\<close>) and only ever reads it through
  \<^verbatim>\<open>G.neighbors(node)\<close>. A networkx graph keeps its adjacency in insertion-ordered
  dictionaries: a dictionary from each node to the dictionary of its neighbours. The
  model is the association list of that dictionary, in insertion order: each node with
  the list of its neighbours, in the order in which the edges added them.
\<close>

type_synonym 'a graph = "('a \<times> 'a list) list"

text \<open>
  The exceptions: \<^verbatim>\<open>NetworkXError\<close> is what the graph library raises for a node that
  is not in the graph, \<^verbatim>\<open>AttributeError\<close> is Python's exception for an attribute of
  \<^verbatim>\<open>None\<close>. \<^verbatim>\<open>UnknownStartNodeError\<close> is the exception that the specification
  names for a traversal from an unknown start node; the program defines no exception of
  this name and has no statement that raises it, so no function below returns it.
\<close>

datatype error = NetworkXError | AttributeError | UnknownStartNodeError

text \<open>\<^verbatim>\<open>if u not in self._node: self._adj[u] = {}\<close>: a new node goes last.\<close>

definition add_node :: "'a \<Rightarrow> 'a graph \<Rightarrow> 'a graph" where
  "add_node u g = (if u \<in> fst ` set g then g else g @ [(u, [])])"

text \<open>
  \<^verbatim>\<open>self._adj[u][v] = datadict\<close>: a key that is already in the dictionary keeps its
  place, a new key goes last.
\<close>

definition add_neighbor :: "'a \<Rightarrow> 'a \<Rightarrow> 'a graph \<Rightarrow> 'a graph" where
  "add_neighbor u v g =
     map (\<lambda>(k, ns). if k = u then (k, if v \<in> set ns then ns else ns @ [v]) else (k, ns)) g"

definition add_edge :: "'a \<Rightarrow> 'a \<Rightarrow> 'a graph \<Rightarrow> 'a graph" where
  "add_edge u v g = add_neighbor v u (add_neighbor u v (add_node v (add_node u g)))"

definition add_edges_from :: "('a \<times> 'a) list \<Rightarrow> 'a graph \<Rightarrow> 'a graph" where
  "add_edges_from es g = foldl (\<lambda>h (u, v). add_edge u v h) g es"

text \<open>
  \<^verbatim>\<open>G.neighbors(n)\<close> iterates over the neighbours of a node in adjacency order and
  raises \<^verbatim>\<open>NetworkXError\<close> for a node that is not in the graph.
\<close>

definition neighbors :: "'a graph \<Rightarrow> 'a \<Rightarrow> error + 'a list" where
  "neighbors g n = (case map_of g n of None \<Rightarrow> Inl NetworkXError | Some ns \<Rightarrow> Inr ns)"

definition nodes :: "'a graph \<Rightarrow> 'a set" where
  "nodes g = fst ` set g"

text \<open>The edge list of the program and the graph built from it.\<close>

definition edges :: "(string \<times> string) list" where
  "edges = [(''A'', ''B''), (''A'', ''C''),
            (''B'', ''D''), (''B'', ''E''),
            (''C'', ''F''), (''C'', ''G''),
            (''A'', ''H''), (''H'', ''I'')]"

definition G :: "string graph" where
  "G = add_edges_from edges []"

section \<open>The traversals\<close>

text \<open>
  Both traversals are a \<^verbatim>\<open>while\<close> loop over three local variables: the set
  \<^verbatim>\<open>visited\<close>, the work list (\<^verbatim>\<open>queue\<close> or \<^verbatim>\<open>stack\<close>) and the list
  \<^verbatim>\<open>steps\<close> of snapshots. A snapshot is \<^verbatim>\<open>list(visited)\<close>, a copy of the set
  whose element order is Python's hash order; the program only ever tests membership in
  a snapshot, and the model keeps the snapshot as the set. The loops are partial
  functions into \<open>option\<close>: \<open>None\<close> is a loop that never ends, \<open>Some (Inl e)\<close> a raised
  exception, \<open>Some (Inr (visited, steps))\<close> the values of the variables when the loop ends.
\<close>

partial_function (option) bfs_loop ::
  "'a graph \<Rightarrow> 'a set \<Rightarrow> 'a list \<Rightarrow> 'a set list \<Rightarrow> (error + 'a set \<times> 'a set list) option"
where
  "bfs_loop g visited queue steps =
     (case queue of
        [] \<Rightarrow> Some (Inr (visited, steps))
      | node # rest \<Rightarrow>
          if node \<notin> visited then
            (case neighbors g node of
               Inl e \<Rightarrow> Some (Inl e)
             | Inr ns \<Rightarrow>
                 bfs_loop g (insert node visited)
                   (rest @ filter (\<lambda>neighbor. neighbor \<notin> insert node visited) ns)
                   (steps @ [insert node visited]))
          else bfs_loop g visited rest steps)"

declare bfs_loop.simps [code]

definition bfs_traversal :: "'a graph \<Rightarrow> 'a \<Rightarrow> (error + 'a set list) option" where
  "bfs_traversal g start = map_option (map_sum id snd) (bfs_loop g {} [start] [])"

text \<open>
  The stack is a Python list: \<^verbatim>\<open>pop()\<close> takes the last element and
  \<^verbatim>\<open>extend\<close> adds at the end.
\<close>

partial_function (option) dfs_loop ::
  "'a graph \<Rightarrow> 'a set \<Rightarrow> 'a list \<Rightarrow> 'a set list \<Rightarrow> (error + 'a set \<times> 'a set list) option"
where
  "dfs_loop g visited stack steps =
     (if stack = [] then Some (Inr (visited, steps))
      else if last stack \<notin> visited then
        (case neighbors g (last stack) of
           Inl e \<Rightarrow> Some (Inl e)
         | Inr ns \<Rightarrow>
             dfs_loop g (insert (last stack) visited)
               (butlast stack @ rev ns)
               (steps @ [insert (last stack) visited]))
      else dfs_loop g visited (butlast stack) steps)"

declare dfs_loop.simps [code]

definition dfs_traversal :: "'a graph \<Rightarrow> 'a \<Rightarrow> (error + 'a set list) option" where
  "dfs_traversal g start = map_option (map_sum id snd) (dfs_loop g {} [start] [])"

section \<open>The playback state\<close>

text \<open>
  The program keeps its playback state in module-level variables, which every handler
  reads and assigns: here one record, passed to each handler and returned updated.
  \<^verbatim>\<open>traversal_type\<close> is one of the strings \<^verbatim>\<open>'BFS'\<close> and \<^verbatim>\<open>'DFS'\<close>.
\<close>

datatype traversal = BFS | DFS

text \<open>
  \<^verbatim>\<open>current_animation\<close> is \<^verbatim>\<open>None\<close> or a matplotlib \<^verbatim>\<open>FuncAnimation\<close>
  over \<^verbatim>\<open>frames=len(steps)\<close> with \<^verbatim>\<open>repeat=False\<close>. Of the animation object
  the model keeps the position of its frame iterator over \<^verbatim>\<open>range(frames)\<close>, the
  number of frames, and its \<^verbatim>\<open>event_source\<close>: the timer with the flag whether it is
  running, or \<^verbatim>\<open>None\<close> once the animation has run out of frames (the case that
  \<^verbatim>\<open>reset_graph\<close> tests for).
\<close>

record animation =
  frame_seq :: nat
  frames :: nat
  event_source :: "bool option"

definition FuncAnimation :: "nat \<Rightarrow> animation" where
  "FuncAnimation n = \<lparr>frame_seq = 0, frames = n, event_source = Some True\<rparr>"

text \<open>
  \<^verbatim>\<open>pause()\<close> is \<^verbatim>\<open>self.event_source.stop()\<close> and \<^verbatim>\<open>resume()\<close> is
  \<^verbatim>\<open>self.event_source.start()\<close>; on an animation whose \<^verbatim>\<open>event_source\<close> is
  \<^verbatim>\<open>None\<close> the attribute access raises.
\<close>

definition pause :: "animation \<Rightarrow> error + animation" where
  "pause a = (case event_source a of
                None \<Rightarrow> Inl AttributeError
              | Some running \<Rightarrow> Inr (a\<lparr>event_source := Some False\<rparr>))"

definition resume :: "animation \<Rightarrow> error + animation" where
  "resume a = (case event_source a of
                 None \<Rightarrow> Inl AttributeError
               | Some running \<Rightarrow> Inr (a\<lparr>event_source := Some True\<rparr>))"

text \<open>
  Of the drawing the model keeps the title of the axes, which records the branch that
  \<^verbatim>\<open>draw_current_step\<close> took, and the label of the start button. The titles are
  \<^verbatim>\<open>"Graph Reset - Ready for Traversal"\<close>, \<^verbatim>\<open>"Selected <type> - Ready to Start"\<close>,
  \<^verbatim>\<open>"<type> - Step <current_step + 1>/<len(steps)>"\<close> and \<^verbatim>\<open>"<type> - Complete"\<close>.
  The node colours and the calls that draw are left out.
\<close>

datatype title = No_Title | Graph_Reset | Selected traversal | Step traversal int nat
  | Complete traversal

record 'a app =
  bfs_steps :: "'a set list"
  dfs_steps :: "'a set list"
  current_animation :: "animation option"
  traversal_type :: traversal
  current_step :: int
  is_playing :: bool
  is_paused :: bool
  ax_title :: title
  btn_start_label :: string

text \<open>
  A handler returns, or raises an exception; the assignments it made before it raised
  stay in the module-level variables.
\<close>

datatype 'a outcome = Returned "'a app" | Raised error "'a app"

fun globals :: "'a outcome \<Rightarrow> 'a app" where
  "globals (Returned s) = s"
| "globals (Raised e s) = s"

text \<open>\<^verbatim>\<open>steps = bfs_steps if traversal_type == 'BFS' else dfs_steps\<close>\<close>

definition active_steps :: "'a app \<Rightarrow> 'a set list" where
  "active_steps s = (if traversal_type s = BFS then bfs_steps s else dfs_steps s)"

definition draw_current_step :: "'a app \<Rightarrow> 'a app" where
  "draw_current_step s =
     (let steps = active_steps s in
      if current_step s < int (length steps)
      then s\<lparr>ax_title := Step (traversal_type s) (current_step s + 1) (length steps)\<rparr>
      else s\<lparr>ax_title := Complete (traversal_type s)\<rparr>)"

definition draw_step :: "int \<Rightarrow> 'a app \<Rightarrow> 'a app" where
  "draw_step i s = draw_current_step (s\<lparr>current_step := i\<rparr>)"

definition reset_to_beginning :: "'a app \<Rightarrow> 'a app" where
  "reset_to_beginning s = s\<lparr>current_step := 0\<rparr>"

definition start_animation :: "'a app \<Rightarrow> 'a outcome" where
  "start_animation s =
     (if is_paused s then
        (case current_animation s of
           None \<Rightarrow> Raised AttributeError s
         | Some a \<Rightarrow>
             (case resume a of
                Inl e \<Rightarrow> Raised e s
              | Inr a' \<Rightarrow>
                  Returned (s\<lparr>current_animation := Some a', is_playing := True,
                              is_paused := False, btn_start_label := ''Pause''\<rparr>)))
      else
        (let s1 = reset_to_beginning s;
             steps = active_steps s1
         in Returned (s1\<lparr>current_animation := Some (FuncAnimation (length steps)),
                          is_playing := True, is_paused := False,
                          btn_start_label := ''Pause''\<rparr>)))"

definition pause_animation :: "'a app \<Rightarrow> 'a outcome" where
  "pause_animation s =
     (case current_animation s of
        None \<Rightarrow> Returned s
      | Some a \<Rightarrow>
          if is_playing s then
            (case pause a of
               Inl e \<Rightarrow> Raised e s
             | Inr a' \<Rightarrow>
                 Returned (s\<lparr>current_animation := Some a', is_playing := False,
                             is_paused := True, btn_start_label := ''Resume''\<rparr>))
          else Returned s)"

definition next_step :: "'a app \<Rightarrow> 'a outcome" where
  "next_step s =
     (let steps = active_steps s in
      if current_step s < int (length steps) - 1 then
        (let s1 = draw_current_step (s\<lparr>current_step := current_step s + 1\<rparr>) in
         if is_playing s1 then pause_animation s1 else Returned s1)
      else Returned s)"

definition prev_step :: "'a app \<Rightarrow> 'a outcome" where
  "prev_step s =
     (if current_step s > 0 then
        (let s1 = draw_current_step (s\<lparr>current_step := current_step s - 1\<rparr>) in
         if is_playing s1 then pause_animation s1 else Returned s1)
      else Returned s)"

definition reset_graph :: "'a app \<Rightarrow> 'a app" where
  "reset_graph s =
     (let s1 = (case current_animation s of
                  None \<Rightarrow> s
                | Some a \<Rightarrow>
                    if event_source a \<noteq> None then s\<lparr>current_animation := None\<rparr> else s)
      in s1\<lparr>is_playing := False, is_paused := False, current_step := 0,
             btn_start_label := ''Start'', ax_title := Graph_Reset\<rparr>)"

definition set_bfs :: "'a app \<Rightarrow> 'a app" where
  "set_bfs s =
     (let s1 = s\<lparr>traversal_type := BFS, current_step := 0\<rparr> in
      if \<not> is_playing s1 then s1\<lparr>ax_title := Selected BFS\<rparr> else s1)"

definition set_dfs :: "'a app \<Rightarrow> 'a app" where
  "set_dfs s =
     (let s1 = s\<lparr>traversal_type := DFS, current_step := 0\<rparr> in
      if \<not> is_playing s1 then s1\<lparr>ax_title := Selected DFS\<rparr> else s1)"

definition toggle_play_pause :: "'a app \<Rightarrow> 'a outcome" where
  "toggle_play_pause s = (if is_playing s then pause_animation s else start_animation s)"

definition on_key_press :: "string \<Rightarrow> 'a app \<Rightarrow> 'a outcome" where
  "on_key_press key s =
     (if key = '' '' then toggle_play_pause s
      else if key = ''left'' then prev_step s
      else if key = ''right'' then next_step s
      else if key = ''r'' then Returned (reset_graph s)
      else Returned s)"

text \<open>
  A tick of the running timer of the current animation calls the animation's step: it
  takes the next frame \<open>i\<close> from the iterator over \<^verbatim>\<open>range(frames)\<close> and calls
  \<^verbatim>\<open>draw_step(i)\<close>; when the iterator is exhausted, the animation, which does not
  repeat, stops its timer and sets its \<^verbatim>\<open>event_source\<close> to \<^verbatim>\<open>None\<close>. A timer
  that is stopped delivers no tick. (When it starts, the animation also draws frame 0
  once, which the first tick draws again; the model has the ticks only.)
\<close>

definition timer_tick :: "'a app \<Rightarrow> 'a app" where
  "timer_tick s =
     (case current_animation s of
        None \<Rightarrow> s
      | Some a \<Rightarrow>
          if event_source a = Some True then
            (if frame_seq a < frames a
             then draw_step (int (frame_seq a))
                    (s\<lparr>current_animation := Some (a\<lparr>frame_seq := Suc (frame_seq a)\<rparr>)\<rparr>)
             else s\<lparr>current_animation := Some (a\<lparr>event_source := None\<rparr>)\<rparr>)
          else s)"

text \<open>
  The events that the buttons, the keyboard and the timer deliver, each with the
  handler connected to it. The event loop goes on after a handler has raised.
\<close>

datatype event = Click_BFS | Click_DFS | Click_Start | Click_Reset | Click_Prev | Click_Next
  | Key_Press string | Timer_Tick

fun handle_event :: "event \<Rightarrow> 'a app \<Rightarrow> 'a outcome" where
  "handle_event Click_BFS s = Returned (set_bfs s)"
| "handle_event Click_DFS s = Returned (set_dfs s)"
| "handle_event Click_Start s = toggle_play_pause s"
| "handle_event Click_Reset s = Returned (reset_graph s)"
| "handle_event Click_Prev s = prev_step s"
| "handle_event Click_Next s = next_step s"
| "handle_event (Key_Press key) s = on_key_press key s"
| "handle_event Timer_Tick s = Returned (timer_tick s)"

fun run :: "event list \<Rightarrow> 'a app \<Rightarrow> 'a app" where
  "run [] s = s"
| "run (e # es) s = run es (globals (handle_event e s))"

text \<open>
  The module-level code: the step sequences are computed from the node \<^verbatim>\<open>'A'\<close>, and
  \<^verbatim>\<open>reset_graph(None)\<close> draws the graph before the event loop starts.
\<close>

definition startup :: "(error + string app) option" where
  "startup =
     (case bfs_traversal G ''A'' of
        None \<Rightarrow> None
      | Some (Inl e) \<Rightarrow> Some (Inl e)
      | Some (Inr bs) \<Rightarrow>
          (case dfs_traversal G ''A'' of
             None \<Rightarrow> None
           | Some (Inl e) \<Rightarrow> Some (Inl e)
           | Some (Inr ds) \<Rightarrow>
               Some (Inr (reset_graph
                 \<lparr>bfs_steps = bs, dfs_steps = ds, current_animation = None,
                  traversal_type = BFS, current_step = 0, is_playing = False,
                  is_paused = False, ax_title = No_Title, btn_start_label = ''Start''\<rparr>))))"

section \<open>Notions used to state the properties\<close>

text \<open>
  A graph is well formed when every neighbour is itself a node, as in every graph that
  \<open>add_edges_from\<close> builds. The nodes reachable from a start node are those at the end of
  a path of adjacency steps.
\<close>

definition wf_graph :: "'a graph \<Rightarrow> bool" where
  "wf_graph g = (\<forall>(k, ns) \<in> set g. set ns \<subseteq> nodes g)"

definition edge_rel :: "'a graph \<Rightarrow> ('a \<times> 'a) set" where
  "edge_rel g = {(u, v). \<exists>ns. neighbors g u = Inr ns \<and> v \<in> set ns}"

definition reachable :: "'a graph \<Rightarrow> 'a \<Rightarrow> 'a set" where
  "reachable g start = (edge_rel g)\<^sup>* `` {start}"

fun grows_from :: "'a set \<Rightarrow> 'a set list \<Rightarrow> bool" where
  "grows_from V [] = True"
| "grows_from V (S # rest) = (V \<subseteq> S \<and> card (S - V) = 1 \<and> grows_from S rest)"

definition explored :: "'a graph \<Rightarrow> 'a set \<Rightarrow> 'a list \<Rightarrow> 'a set \<Rightarrow> 'a set list \<Rightarrow> bool" where
  "explored g V work V' new =
     (grows_from V new \<and> V' = last (V # new) \<and> V \<union> set work \<subseteq> V' \<and>
      V' \<subseteq> V \<union> (edge_rel g)\<^sup>* `` set work \<and>
      (\<forall>u \<in> V' - V. edge_rel g `` {u} \<subseteq> V'))"

text \<open>
  The snapshots of a step sequence grow by one node: each holds the one before it and
  exactly one node more.
\<close>

definition grows_by_one :: "'a set list \<Rightarrow> bool" where
  "grows_by_one steps =
     (\<forall>i. Suc i < length steps \<longrightarrow>
        steps ! i \<subseteq> steps ! Suc i \<and> card (steps ! Suc i - steps ! i) = 1)"

definition step_sequence_of :: "'a graph \<Rightarrow> 'a \<Rightarrow> 'a set list \<Rightarrow> bool" where
  "step_sequence_of g start steps =
     (steps \<noteq> [] \<and> grows_by_one steps \<and> last steps = reachable g start \<and>
      length steps = card (reachable g start))"

text \<open>
  The snapshots of a traversal that visits the nodes for the first time in a given
  order: the sets of the first one, two, three, ... nodes.
\<close>

definition snapshots_of :: "'a list \<Rightarrow> 'a set list" where
  "snapshots_of order = map (\<lambda>n. set (take n order)) [1..<Suc (length order)]"

text \<open>
  Exploring a list of nodes in order: the depth-first loop is run on the first node
  alone until its stack is empty, then on the second with the nodes visited so far, and
  so on. \<open>and_then\<close> continues after a loop that returned and passes an exception on.
\<close>

fun explore_in_order ::
  "'a graph \<Rightarrow> 'a list \<Rightarrow> 'a set \<Rightarrow> 'a set list \<Rightarrow> (error + 'a set \<times> 'a set list) option"
where
  "explore_in_order g [] visited steps = Some (Inr (visited, steps))"
| "explore_in_order g (n # ns) visited steps =
     (case dfs_loop g visited [n] steps of
        Some (Inr (visited', steps')) \<Rightarrow> explore_in_order g ns visited' steps'
      | r \<Rightarrow> r)"

definition and_then ::
  "(error + 'a set \<times> 'a set list) option \<Rightarrow>
   ('a set \<Rightarrow> 'a set list \<Rightarrow> (error + 'a set \<times> 'a set list) option) \<Rightarrow>
   (error + 'a set \<times> 'a set list) option"
where
  "and_then r f = (case r of Some (Inr (visited, steps)) \<Rightarrow> f visited steps | _ \<Rightarrow> r)"


text \<open>
  The invariant of the playback state: the step index is an index of the step sequence of
  the selected traversal, the two step sequences have the same length, an animation has
  one frame for each step, and the title is not the title that the \<^verbatim>\<open>else\<close> branch
  of \<^verbatim>\<open>draw_current_step\<close> sets.
\<close>

definition app_inv :: "'a app \<Rightarrow> bool" where
  "app_inv s =
     (0 \<le> current_step s \<and> current_step s \<le> int (length (active_steps s)) - 1 \<and>
      length (bfs_steps s) = length (dfs_steps s) \<and>
      (case current_animation s of None \<Rightarrow> True | Some a \<Rightarrow> frames a = length (bfs_steps s)) \<and>
      ax_title s \<noteq> Complete BFS \<and> ax_title s \<noteq> Complete DFS)"


section \<open>Properties of the graph\<close>

lemma neighbors_in_nodes: "n \<in> nodes g \<Longrightarrow> \<exists>ns. neighbors g n = Inr ns"
proof -
  assume "n \<in> nodes g"
  then have "n \<in> fst ` set g" by (simp add: nodes_def)
  then have "map_of g n \<noteq> None" by (simp add: map_of_eq_None_iff)
  then show ?thesis by (auto simp: neighbors_def)
qed

lemma neighbors_Inr_nodes: "neighbors g n = Inr ns \<Longrightarrow> n \<in> nodes g"
proof -
  assume "neighbors g n = Inr ns"
  then have "map_of g n = Some ns" by (simp add: neighbors_def split: option.splits)
  then have "(n, ns) \<in> set g" by (rule map_of_SomeD)
  then show ?thesis unfolding nodes_def by force
qed

lemma wf_graph_neighbors: "wf_graph g \<Longrightarrow> neighbors g n = Inr ns \<Longrightarrow> set ns \<subseteq> nodes g"
proof -
  assume wf: "wf_graph g" and "neighbors g n = Inr ns"
  then have "map_of g n = Some ns" by (simp add: neighbors_def split: option.splits)
  then have "(n, ns) \<in> set g" by (rule map_of_SomeD)
  with wf show ?thesis unfolding wf_graph_def by blast
qed

lemma card_unvisited_less:
  "n \<in> nodes g \<Longrightarrow> n \<notin> V \<Longrightarrow> card (nodes g - insert n V) < card (nodes g - V)"
proof -
  assume a: "n \<in> nodes g" "n \<notin> V"
  have "finite (nodes g - V)" by (simp add: nodes_def)
  moreover have "nodes g - insert n V \<subset> nodes g - V" using a by auto
  ultimately show ?thesis by (rule psubset_card_mono)
qed

lemma explored_Nil: "explored g V [] V []"
  by (simp add: explored_def)

lemma explored_skip:
  assumes ex: "explored g V work' V' new"
    and w1: "set work' \<subseteq> set work"
    and w2: "set work \<subseteq> V \<union> set work'"
  shows "explored g V work V' new"
proof -
  have m: "(edge_rel g)\<^sup>* `` set work' \<subseteq> (edge_rel g)\<^sup>* `` set work"
    by (rule Image_mono[OF subset_refl w1])
  from ex have a: "grows_from V new" "V' = last (V # new)" "V \<union> set work' \<subseteq> V'"
    "V' \<subseteq> V \<union> (edge_rel g)\<^sup>* `` set work'" "\<forall>u \<in> V' - V. edge_rel g `` {u} \<subseteq> V'"
    unfolding explored_def by blast+
  have s1: "V \<union> set work \<subseteq> V'" using a(3) w2 by blast
  have s2: "V' \<subseteq> V \<union> (edge_rel g)\<^sup>* `` set work" using a(4) m by blast
  show ?thesis unfolding explored_def by (intro conjI a(1) a(2) s1 s2 a(5))
qed

lemma edge_rel_neighbors: "neighbors g n = Inr ns \<Longrightarrow> edge_rel g `` {n} = set ns"
  by (auto simp: edge_rel_def)

lemma rtrancl_Image_idem: "r\<^sup>* `` (r\<^sup>* `` X) = r\<^sup>* `` X"
proof
  show "r\<^sup>* `` (r\<^sup>* `` X) \<subseteq> r\<^sup>* `` X"
  proof
    fix y assume "y \<in> r\<^sup>* `` (r\<^sup>* `` X)"
    then obtain x z where "x \<in> X" "(x, z) \<in> r\<^sup>*" "(z, y) \<in> r\<^sup>*" by blast
    then have "(x, y) \<in> r\<^sup>*" by (meson rtrancl_trans)
    with \<open>x \<in> X\<close> show "y \<in> r\<^sup>* `` X" by blast
  qed
  show "r\<^sup>* `` X \<subseteq> r\<^sup>* `` (r\<^sup>* `` X)" by blast
qed

lemma explored_visit:
  assumes ex: "explored g (insert node V) work' V' new'"
    and nb: "neighbors g node = Inr ns"
    and nv: "node \<notin> V"
    and w1: "set work' \<subseteq> set work \<union> set ns"
    and w2: "set ns \<subseteq> insert node V \<union> set work'"
    and w3: "node \<in> set work"
    and w4: "set work \<subseteq> insert node (set work')"
  shows "explored g V work V' (insert node V # new')"
proof -
  let ?E = "edge_rel g"
  from ex have a: "grows_from (insert node V) new'" "V' = last (insert node V # new')"
    "insert node V \<union> set work' \<subseteq> V'"
    "V' \<subseteq> insert node V \<union> ?E\<^sup>* `` set work'"
    "\<forall>u \<in> V' - insert node V. ?E `` {u} \<subseteq> V'"
    unfolding explored_def by blast+
  have "insert node V - V = {node}" using nv by auto
  then have g: "grows_from V (insert node V # new')" using a(1) by auto
  have l: "V' = last (V # insert node V # new')" using a(2) by simp
  have s1: "V \<union> set work \<subseteq> V'" using a(3) w4 by auto
  have en: "?E `` {node} = set ns" by (rule edge_rel_neighbors[OF nb])
  have "set work' \<subseteq> ?E\<^sup>* `` set work"
  proof
    fix x assume "x \<in> set work'"
    with w1 have "x \<in> set work \<or> x \<in> set ns" by auto
    then show "x \<in> ?E\<^sup>* `` set work"
    proof
      assume "x \<in> set work" then show ?thesis by auto
    next
      assume "x \<in> set ns"
      with en have "(node, x) \<in> ?E" by auto
      then have "(node, x) \<in> ?E\<^sup>*" by auto
      with w3 show ?thesis by auto
    qed
  qed
  then have "?E\<^sup>* `` set work' \<subseteq> ?E\<^sup>* `` (?E\<^sup>* `` set work)" by (rule Image_mono[OF subset_refl])
  also have "\<dots> = ?E\<^sup>* `` set work" by (rule rtrancl_Image_idem)
  finally have m: "?E\<^sup>* `` set work' \<subseteq> ?E\<^sup>* `` set work" .
  have "node \<in> ?E\<^sup>* `` set work" using w3 by auto
  with a(4) m have s2: "V' \<subseteq> V \<union> ?E\<^sup>* `` set work" by blast
  have c: "\<forall>u \<in> V' - V. ?E `` {u} \<subseteq> V'"
  proof
    fix u assume u: "u \<in> V' - V"
    show "?E `` {u} \<subseteq> V'"
    proof (cases "u = node")
      case True
      then show ?thesis using en w2 a(3) by auto
    next
      case False
      with u have "u \<in> V' - insert node V" by auto
      with a(5) show ?thesis by blast
    qed
  qed
  show ?thesis unfolding explored_def by (intro conjI g l s1 s2 c)
qed

lemma bfs_loop_explored:
  assumes wf: "wf_graph g"
  shows "set q \<subseteq> nodes g \<Longrightarrow>
         \<exists>V' new. bfs_loop g V q steps = Some (Inr (V', steps @ new)) \<and> explored g V q V' new"
proof (induction "card (nodes g - V)" arbitrary: V q steps rule: less_induct)
  case less
  from less.prems show ?case
  proof (induction q arbitrary: steps)
    case Nil
    have "bfs_loop g V [] steps = Some (Inr (V, steps @ []))"
      by (subst bfs_loop.simps) simp
    with explored_Nil[of g V] show ?case by blast
  next
    case (Cons node rest)
    show ?case
    proof (cases "node \<in> V")
      case True
      from Cons.prems have "set rest \<subseteq> nodes g" by simp
      from Cons.IH[OF this, of steps] obtain V' new where
        r: "bfs_loop g V rest steps = Some (Inr (V', steps @ new))" and e: "explored g V rest V' new"
        by blast
      have "bfs_loop g V (node # rest) steps = Some (Inr (V', steps @ new))"
        using True r by (subst bfs_loop.simps) simp
      moreover have "explored g V (node # rest) V' new"
        by (rule explored_skip[OF e]) (use True in auto)
      ultimately show ?thesis by blast
    next
      case False
      from Cons.prems have n: "node \<in> nodes g" by simp
      from neighbors_in_nodes[OF n] obtain ns where nb: "neighbors g node = Inr ns" ..
      let ?V = "insert node V"
      let ?q = "rest @ filter (\<lambda>neighbor. neighbor \<notin> ?V) ns"
      have "set rest \<subseteq> nodes g" using Cons.prems by simp
      moreover have "set (filter (\<lambda>neighbor. neighbor \<notin> ?V) ns) \<subseteq> set ns" by simp
      ultimately have sub: "set ?q \<subseteq> nodes g"
        using wf_graph_neighbors[OF wf nb] unfolding set_append by blast
      have "\<exists>V' new. bfs_loop g ?V ?q (steps @ [?V]) = Some (Inr (V', (steps @ [?V]) @ new))
              \<and> explored g ?V ?q V' new"
        by (rule less.hyps[OF card_unvisited_less[OF n False] sub])
      then obtain V' new where
        r: "bfs_loop g ?V ?q (steps @ [?V]) = Some (Inr (V', (steps @ [?V]) @ new))"
        and e: "explored g ?V ?q V' new" by blast
      have "bfs_loop g V (node # rest) steps = Some (Inr (V', steps @ (?V # new)))"
        using False nb r by (subst bfs_loop.simps) simp
      moreover have "explored g V (node # rest) V' (?V # new)"
      proof (rule explored_visit[OF e nb False])
        show "set ?q \<subseteq> set (node # rest) \<union> set ns" by auto
        show "set ns \<subseteq> insert node V \<union> set ?q" by auto
        show "node \<in> set (node # rest)" by simp
        show "set (node # rest) \<subseteq> insert node (set ?q)" by auto
      qed
      ultimately show ?thesis by blast
    qed
  qed
qed

lemma dfs_loop_explored:
  assumes wf: "wf_graph g"
  shows "set st \<subseteq> nodes g \<Longrightarrow>
         \<exists>V' new. dfs_loop g V st steps = Some (Inr (V', steps @ new)) \<and> explored g V st V' new"
proof (induction "card (nodes g - V)" arbitrary: V st steps rule: less_induct)
  case less
  from less.prems show ?case
  proof (induction st arbitrary: steps rule: rev_induct)
    case Nil
    have "dfs_loop g V [] steps = Some (Inr (V, steps @ []))"
      by (subst dfs_loop.simps) simp
    with explored_Nil[of g V] show ?case by blast
  next
    case (snoc node rest)
    show ?case
    proof (cases "node \<in> V")
      case True
      from snoc.prems have "set rest \<subseteq> nodes g" by simp
      from snoc.IH[OF this, of steps] obtain V' new where
        r: "dfs_loop g V rest steps = Some (Inr (V', steps @ new))" and e: "explored g V rest V' new"
        by blast
      have "dfs_loop g V (rest @ [node]) steps = Some (Inr (V', steps @ new))"
        using True r by (subst dfs_loop.simps) simp
      moreover have "explored g V (rest @ [node]) V' new"
        by (rule explored_skip[OF e]) (use True in auto)
      ultimately show ?thesis by blast
    next
      case False
      from snoc.prems have n: "node \<in> nodes g" by simp
      from neighbors_in_nodes[OF n] obtain ns where nb: "neighbors g node = Inr ns" ..
      let ?V = "insert node V"
      let ?st = "rest @ rev ns"
      have "set rest \<subseteq> nodes g" using snoc.prems by simp
      then have sub: "set ?st \<subseteq> nodes g"
        using wf_graph_neighbors[OF wf nb] unfolding set_append set_rev by blast
      have "\<exists>V' new. dfs_loop g ?V ?st (steps @ [?V]) = Some (Inr (V', (steps @ [?V]) @ new))
              \<and> explored g ?V ?st V' new"
        by (rule less.hyps[OF card_unvisited_less[OF n False] sub])
      then obtain V' new where
        r: "dfs_loop g ?V ?st (steps @ [?V]) = Some (Inr (V', (steps @ [?V]) @ new))"
        and e: "explored g ?V ?st V' new" by blast
      have "dfs_loop g V (rest @ [node]) steps = Some (Inr (V', steps @ (?V # new)))"
        using False nb r by (subst dfs_loop.simps) simp
      moreover have "explored g V (rest @ [node]) V' (?V # new)"
      proof (rule explored_visit[OF e nb False])
        show "set ?st \<subseteq> set (rest @ [node]) \<union> set ns" by auto
        show "set ns \<subseteq> insert node V \<union> set ?st" by auto
        show "node \<in> set (rest @ [node])" by simp
        show "set (rest @ [node]) \<subseteq> insert node (set ?st)" by auto
      qed
      ultimately show ?thesis by blast
    qed
  qed
qed

lemma grows_from_card:
  "finite V \<Longrightarrow> grows_from V new \<Longrightarrow>
     finite (last (V # new)) \<and> card (last (V # new)) = card V + length new"
proof (induction new arbitrary: V)
  case Nil
  then show ?case by simp
next
  case (Cons S new)
  from Cons.prems have s: "V \<subseteq> S" "card (S - V) = 1" "grows_from S new" by simp_all
  from s(2) have fD: "finite (S - V)" by (simp add: card_ge_0_finite)
  have SU: "S = V \<union> (S - V)" using s(1) by blast
  have fS: "finite S" by (subst SU) (simp only: finite_Un Cons.prems(1) fD)
  have "card (V \<union> (S - V)) = card V + card (S - V)"
    by (rule card_Un_disjoint[OF Cons.prems(1) fD]) blast
  with SU s(2) have cS: "card S = Suc (card V)" by simp
  from Cons.IH[OF fS s(3)] cS show ?case by simp
qed

lemma grows_from_nth:
  "grows_from V new \<Longrightarrow> Suc i < length new \<Longrightarrow>
     new ! i \<subseteq> new ! Suc i \<and> card (new ! Suc i - new ! i) = 1"
proof (induction new arbitrary: V i)
  case Nil
  then show ?case by simp
next
  case (Cons S new)
  show ?case
  proof (cases i)
    case 0
    with Cons.prems obtain T rest where "new = T # rest" by (cases new) auto
    with Cons.prems 0 show ?thesis by simp
  next
    case (Suc j)
    with Cons.prems have "grows_from S new" "Suc j < length new" by simp_all
    from Cons.IH[OF this] Suc show ?thesis by simp
  qed
qed


lemma nodes_add_node: "nodes (add_node u g) = insert u (nodes g)"
  by (auto simp: add_node_def nodes_def)

lemma nodes_add_neighbor: "nodes (add_neighbor u v g) = nodes g"
  by (force simp: add_neighbor_def nodes_def split: if_splits)

lemma wf_graph_add_node: "wf_graph g \<Longrightarrow> wf_graph (add_node u g)"
  unfolding wf_graph_def nodes_add_node by (auto simp: add_node_def)

lemma wf_graph_add_neighbor:
  assumes "wf_graph g" "v \<in> nodes g"
  shows "wf_graph (add_neighbor u v g)"
  unfolding wf_graph_def nodes_add_neighbor
  using assms by (fastforce simp: add_neighbor_def wf_graph_def split: if_splits)

lemma wf_graph_add_edge: "wf_graph g \<Longrightarrow> wf_graph (add_edge u v g)"
  unfolding add_edge_def
  by (intro wf_graph_add_neighbor wf_graph_add_node)
     (simp_all add: nodes_add_neighbor nodes_add_node)

lemma wf_graph_add_edges_from: "wf_graph g \<Longrightarrow> wf_graph (add_edges_from es g)"
  unfolding add_edges_from_def
  by (induction es arbitrary: g) (auto simp: wf_graph_add_edge)

lemma wf_graph_empty: "wf_graph []"
  by (simp add: wf_graph_def)

lemma bfs_loop_total: "\<exists>r. bfs_loop g V q steps = Some r"
proof (induction "card (nodes g - V)" arbitrary: V q steps rule: less_induct)
  case less
  show ?case
  proof (induction q arbitrary: steps)
    case Nil
    show ?case by (subst bfs_loop.simps) simp
  next
    case (Cons node rest)
    show ?case
    proof (cases "node \<in> V")
      case True
      with Cons.IH[of steps] show ?thesis by (subst bfs_loop.simps) simp
    next
      case False
      show ?thesis
      proof (cases "neighbors g node")
        case (Inl e)
        with False show ?thesis by (subst bfs_loop.simps) simp
      next
        case (Inr ns)
        from card_unvisited_less[OF neighbors_Inr_nodes[OF Inr] False]
        have "\<exists>r. bfs_loop g (insert node V)
                 (rest @ filter (\<lambda>neighbor. neighbor \<notin> insert node V) ns)
                 (steps @ [insert node V]) = Some r"
          by (rule less.hyps)
        with False Inr show ?thesis by (subst bfs_loop.simps) simp
      qed
    qed
  qed
qed

lemma dfs_loop_total: "\<exists>r. dfs_loop g V st steps = Some r"
proof (induction "card (nodes g - V)" arbitrary: V st steps rule: less_induct)
  case less
  show ?case
  proof (induction st arbitrary: steps rule: rev_induct)
    case Nil
    show ?case by (subst dfs_loop.simps) simp
  next
    case (snoc node rest)
    show ?case
    proof (cases "node \<in> V")
      case True
      with snoc.IH[of steps] show ?thesis by (subst dfs_loop.simps) simp
    next
      case False
      show ?thesis
      proof (cases "neighbors g node")
        case (Inl e)
        with False show ?thesis by (subst dfs_loop.simps) simp
      next
        case (Inr ns)
        from card_unvisited_less[OF neighbors_Inr_nodes[OF Inr] False]
        have "\<exists>r. dfs_loop g (insert node V) (rest @ rev ns) (steps @ [insert node V]) = Some r"
          by (rule less.hyps)
        with False Inr show ?thesis by (subst dfs_loop.simps) simp
      qed
    qed
  qed
qed

lemma neighbors_not_node: "n \<notin> nodes g \<Longrightarrow> neighbors g n = Inl NetworkXError"
proof -
  assume "n \<notin> nodes g"
  then have "map_of g n = None" by (simp add: nodes_def map_of_eq_None_iff)
  then show ?thesis by (simp add: neighbors_def)
qed

lemma G_eq:
  "G = [(''A'', [''B'', ''C'', ''H'']), (''B'', [''A'', ''D'', ''E'']),
        (''C'', [''A'', ''F'', ''G'']), (''D'', [''B'']), (''E'', [''B'']),
        (''F'', [''C'']), (''G'', [''C'']), (''H'', [''A'', ''I'']),
        (''I'', [''H''])]"
  by (simp add: G_def edges_def add_edges_from_def add_edge_def add_node_def add_neighbor_def)

lemma wf_graph_G: "wf_graph G"
  unfolding G_def by (intro wf_graph_add_edges_from wf_graph_empty)

lemma nodes_G: "nodes G = {''A'', ''B'', ''C'', ''D'', ''E'', ''F'', ''G'', ''H'', ''I''}"
  by (simp add: G_eq nodes_def)

section \<open>The step sequences\<close>

lemma explored_start:
  assumes ex: "explored g {} [start] V' new"
  shows "step_sequence_of g start new"
proof -
  let ?E = "edge_rel g"
  from ex have a: "grows_from {} new" "V' = last ({} # new)" "{} \<union> set [start] \<subseteq> V'"
    "V' \<subseteq> {} \<union> ?E\<^sup>* `` set [start]" "\<forall>u \<in> V' - {}. ?E `` {u} \<subseteq> V'"
    unfolding explored_def by blast+
  from a(3) have st: "start \<in> V'" by simp
  have "reachable g start \<subseteq> V'"
  proof
    fix y assume "y \<in> reachable g start"
    then have "(start, y) \<in> ?E\<^sup>*" by (simp add: reachable_def)
    then show "y \<in> V'"
    proof (induction rule: rtrancl_induct)
      case base
      show ?case by (rule st)
    next
      case (step y z)
      from step.IH a(5) have "?E `` {y} \<subseteq> V'" by blast
      with step.hyps(2) show ?case by blast
    qed
  qed
  moreover from a(4) have "V' \<subseteq> reachable g start" by (simp add: reachable_def)
  ultimately have V': "V' = reachable g start" by blast
  from st a(2) have ne: "new \<noteq> []" by auto
  with a(2) have l: "last new = V'" by simp
  from grows_from_card[OF _ a(1)] a(2) have "card V' = length new" by simp
  moreover have "grows_by_one new"
    unfolding grows_by_one_def using grows_from_nth[OF a(1)] by blast
  ultimately show ?thesis unfolding step_sequence_of_def using ne l V' by simp
qed

lemma bfs_traversal_step_sequence:
  assumes wf: "wf_graph g" and st: "start \<in> nodes g"
  shows "\<exists>steps. bfs_traversal g start = Some (Inr steps) \<and> step_sequence_of g start steps"
proof -
  from st have "set [start] \<subseteq> nodes g" by simp
  from bfs_loop_explored[OF wf this, of "{}" "[]"] obtain V' new where
    r: "bfs_loop g {} [start] [] = Some (Inr (V', [] @ new))" and e: "explored g {} [start] V' new"
    by blast
  from r have "bfs_traversal g start = Some (Inr new)" by (simp add: bfs_traversal_def)
  with explored_start[OF e] show ?thesis by blast
qed

lemma dfs_traversal_step_sequence:
  assumes wf: "wf_graph g" and st: "start \<in> nodes g"
  shows "\<exists>steps. dfs_traversal g start = Some (Inr steps) \<and> step_sequence_of g start steps"
proof -
  from st have "set [start] \<subseteq> nodes g" by simp
  from dfs_loop_explored[OF wf this, of "{}" "[]"] obtain V' new where
    r: "dfs_loop g {} [start] [] = Some (Inr (V', [] @ new))" and e: "explored g {} [start] V' new"
    by blast
  from r have "dfs_traversal g start = Some (Inr new)" by (simp add: dfs_traversal_def)
  with explored_start[OF e] show ?thesis by blast
qed

text \<open>
  C4. For a well-formed graph and a start node in it, both traversals return a step
  sequence; in each, every snapshot holds the previous one and exactly one node more,
  the last snapshot is the set of nodes reachable from the start node, and the number
  of snapshots is the number of reachable nodes.
\<close>

theorem traversal_step_sequences:
  assumes "wf_graph g" and "start \<in> nodes g"
  shows "\<exists>bs ds. bfs_traversal g start = Some (Inr bs) \<and> step_sequence_of g start bs \<and>
                 dfs_traversal g start = Some (Inr ds) \<and> step_sequence_of g start ds"
  using bfs_traversal_step_sequence[OF assms] dfs_traversal_step_sequence[OF assms] by blast

theorem traversal_step_sequences_witness:
  "wf_graph G \<and> ''A'' \<in> nodes G \<and>
   (\<exists>bs ds. bfs_traversal G ''A'' = Some (Inr bs) \<and> step_sequence_of G ''A'' bs \<and>
            dfs_traversal G ''A'' = Some (Inr ds) \<and> step_sequence_of G ''A'' ds)"
proof -
  have a: "''A'' \<in> nodes G" by (simp add: nodes_G)
  from a wf_graph_G traversal_step_sequences[OF wf_graph_G a] show ?thesis by blast
qed

section \<open>Failure and termination\<close>

text \<open>
  C7, as amended. For a start node that is not in the graph, both traversals fail with
  \<^verbatim>\<open>NetworkXError\<close> and return no step sequence. The traversals do not check the
  start node themselves: the first iteration marks it visited and then asks the graph
  for its neighbours, and it is this call of \<^verbatim>\<open>G.neighbors\<close> that raises.
\<close>

theorem unknown_start_fails:
  assumes "start \<notin> nodes g"
  shows "bfs_traversal g start = Some (Inl NetworkXError) \<and>
         dfs_traversal g start = Some (Inl NetworkXError)"
proof -
  from neighbors_not_node[OF assms]
  have "bfs_loop g {} [start] [] = Some (Inl NetworkXError)"
    by (subst bfs_loop.simps) simp
  moreover from neighbors_not_node[OF assms]
  have "dfs_loop g {} [start] [] = Some (Inl NetworkXError)"
    by (subst dfs_loop.simps) simp
  ultimately show ?thesis by (simp add: bfs_traversal_def dfs_traversal_def)
qed

theorem unknown_start_fails_witness:
  "''Z'' \<notin> nodes G \<and> bfs_traversal G ''Z'' = Some (Inl NetworkXError) \<and>
   dfs_traversal G ''Z'' = Some (Inl NetworkXError)"
proof -
  have a: "''Z'' \<notin> nodes G" by (simp add: nodes_G)
  from a unknown_start_fails[OF a] show ?thesis by blast
qed

text \<open>
  The exception is not the \<^verbatim>\<open>UnknownStartNodeError\<close> of the specification: from the
  node \<^verbatim>\<open>'Z'\<close>, which is not in the graph of the program, neither traversal fails
  with it.
\<close>

theorem unknown_start_error_counterexample:
  "''Z'' \<notin> nodes G \<and>
   bfs_traversal G ''Z'' \<noteq> Some (Inl UnknownStartNodeError) \<and>
   dfs_traversal G ''Z'' \<noteq> Some (Inl UnknownStartNodeError)"
  by code_simp

text \<open>
  C9. Both traversals terminate on every graph and every start node: the loop returns,
  with the step sequence or with the exception. Each iteration either visits a node of
  the graph that was not visited before, or shortens the work list and leaves the
  visited set as it is, so the pairs of the number of unvisited nodes and the length of
  the work list decrease lexicographically.
\<close>

theorem traversals_terminate:
  "(\<exists>r. bfs_traversal g start = Some r) \<and> (\<exists>r. dfs_traversal g start = Some r)"
  using bfs_loop_total[of g "{}" "[start]" "[]"] dfs_loop_total[of g "{}" "[start]" "[]"]
  by (auto simp: bfs_traversal_def dfs_traversal_def)


lemma dfs_loop_snoc_visited:
  "node \<in> V \<Longrightarrow> dfs_loop g V (st @ [node]) steps = dfs_loop g V st steps"
  by (subst dfs_loop.simps) simp

lemma dfs_loop_snoc_error:
  "node \<notin> V \<Longrightarrow> neighbors g node = Inl e \<Longrightarrow> dfs_loop g V (st @ [node]) steps = Some (Inl e)"
  by (subst dfs_loop.simps) simp

lemma dfs_loop_snoc_visit:
  "node \<notin> V \<Longrightarrow> neighbors g node = Inr ns \<Longrightarrow>
   dfs_loop g V (st @ [node]) steps =
   dfs_loop g (insert node V) (st @ rev ns) (steps @ [insert node V])"
  by (subst dfs_loop.simps) simp

lemma dfs_loop_Nil: "dfs_loop g V [] steps = Some (Inr (V, steps))"
  by (subst dfs_loop.simps) simp

lemma dfs_loop_append:
  "dfs_loop g V (lower @ upper) steps =
   and_then (dfs_loop g V upper steps) (\<lambda>V' steps'. dfs_loop g V' lower steps')"
proof (induction "card (nodes g - V)" arbitrary: V upper steps rule: less_induct)
  case less
  show ?case
  proof (induction upper arbitrary: steps rule: rev_induct)
    case Nil
    show ?case by (simp add: dfs_loop_Nil and_then_def)
  next
    case (snoc node rest)
    show ?case
    proof (cases "node \<in> V")
      case True
      have "dfs_loop g V (lower @ rest @ [node]) steps = dfs_loop g V (lower @ rest) steps"
        using dfs_loop_snoc_visited[OF True, of g "lower @ rest" steps] by simp
      with snoc.IH[of steps] dfs_loop_snoc_visited[OF True, of g rest steps]
      show ?thesis by simp
    next
      case False
      show ?thesis
      proof (cases "neighbors g node")
        case (Inl e)
        have "dfs_loop g V (lower @ rest @ [node]) steps = Some (Inl e)"
          using dfs_loop_snoc_error[OF False Inl, of "lower @ rest" steps] by simp
        with dfs_loop_snoc_error[OF False Inl, of rest steps]
        show ?thesis by (simp add: and_then_def)
      next
        case (Inr ns)
        let ?V = "insert node V"
        have l: "dfs_loop g V (lower @ rest @ [node]) steps =
                 dfs_loop g ?V (lower @ (rest @ rev ns)) (steps @ [?V])"
          using dfs_loop_snoc_visit[OF False Inr, of "lower @ rest" steps] by simp
        have "dfs_loop g ?V (lower @ (rest @ rev ns)) (steps @ [?V]) =
              and_then (dfs_loop g ?V (rest @ rev ns) (steps @ [?V]))
                (\<lambda>V' steps'. dfs_loop g V' lower steps')"
          by (rule less.hyps[OF card_unvisited_less[OF neighbors_Inr_nodes[OF Inr] False]])
        with l dfs_loop_snoc_visit[OF False Inr, of rest steps]
        show ?thesis by simp
      qed
    qed
  qed
qed

lemma dfs_loop_explore_in_order:
  "dfs_loop g V (lower @ rev ns) steps =
   and_then (explore_in_order g ns V steps) (\<lambda>V' steps'. dfs_loop g V' lower steps')"
proof (induction ns arbitrary: V steps)
  case Nil
  show ?case by (simp add: and_then_def)
next
  case (Cons n ns)
  have "dfs_loop g V (lower @ rev (n # ns)) steps = dfs_loop g V ((lower @ rev ns) @ [n]) steps"
    by simp
  also have "\<dots> = and_then (dfs_loop g V [n] steps)
                      (\<lambda>V' steps'. dfs_loop g V' (lower @ rev ns) steps')"
    by (rule dfs_loop_append)
  also have "\<dots> = and_then (explore_in_order g (n # ns) V steps)
                      (\<lambda>V' steps'. dfs_loop g V' lower steps')"
    by (cases "dfs_loop g V [n] steps")
       (auto simp: and_then_def Cons.IH split: sum.splits prod.splits)
  finally show ?case .
qed

text \<open>
  C10. The traversals are deterministic: their result is a function of the adjacency
  order and the start node alone. Two invocations on graphs in which every node has the
  same neighbours in the same order, whatever else differs between the two graph
  objects, return, and return the same sequence of visited-node sets (or raise the same
  exception).
\<close>

lemma bfs_loop_same_neighbors:
  assumes nb: "\<And>n. neighbors g n = neighbors g' n"
  shows "bfs_loop g V q steps = bfs_loop g' V q steps"
proof (induction "card (nodes g - V)" arbitrary: V q steps rule: less_induct)
  case less
  show ?case
  proof (induction q arbitrary: steps)
    case Nil
    show ?case by (subst (1 2) bfs_loop.simps) simp
  next
    case (Cons node rest)
    show ?case
    proof (cases "node \<in> V")
      case True
      with Cons.IH[of steps] show ?thesis by (subst (1 2) bfs_loop.simps) simp
    next
      case False
      show ?thesis
      proof (cases "neighbors g node")
        case (Inl e)
        then have "neighbors g' node = Inl e" using nb[of node] by simp
        with False Inl show ?thesis by (subst (1 2) bfs_loop.simps) simp
      next
        case (Inr ns)
        let ?V = "insert node V"
        let ?q = "rest @ filter (\<lambda>neighbor. neighbor \<notin> ?V) ns"
        have "bfs_loop g ?V ?q (steps @ [?V]) = bfs_loop g' ?V ?q (steps @ [?V])"
          by (rule less.hyps[OF card_unvisited_less[OF neighbors_Inr_nodes[OF Inr] False]])
        moreover have "neighbors g' node = Inr ns" using Inr nb[of node] by simp
        ultimately show ?thesis using False Inr by (subst (1 2) bfs_loop.simps) simp
      qed
    qed
  qed
qed

lemma dfs_loop_same_neighbors:
  assumes nb: "\<And>n. neighbors g n = neighbors g' n"
  shows "dfs_loop g V st steps = dfs_loop g' V st steps"
proof (induction "card (nodes g - V)" arbitrary: V st steps rule: less_induct)
  case less
  show ?case
  proof (induction st arbitrary: steps rule: rev_induct)
    case Nil
    show ?case by (simp add: dfs_loop_Nil)
  next
    case (snoc node rest)
    show ?case
    proof (cases "node \<in> V")
      case True
      with snoc.IH[of steps] show ?thesis by (simp add: dfs_loop_snoc_visited)
    next
      case False
      show ?thesis
      proof (cases "neighbors g node")
        case (Inl e)
        then have "neighbors g' node = Inl e" using nb[of node] by simp
        with False Inl show ?thesis by (simp add: dfs_loop_snoc_error)
      next
        case (Inr ns)
        let ?V = "insert node V"
        have "dfs_loop g ?V (rest @ rev ns) (steps @ [?V]) =
              dfs_loop g' ?V (rest @ rev ns) (steps @ [?V])"
          by (rule less.hyps[OF card_unvisited_less[OF neighbors_Inr_nodes[OF Inr] False]])
        moreover have "neighbors g' node = Inr ns" using Inr nb[of node] by simp
        ultimately show ?thesis using False Inr by (simp add: dfs_loop_snoc_visit)
      qed
    qed
  qed
qed

theorem traversals_deterministic:
  assumes "\<forall>n. neighbors g n = neighbors g' n"
  shows "bfs_traversal g start = bfs_traversal g' start \<and> bfs_traversal g start \<noteq> None \<and>
         dfs_traversal g start = dfs_traversal g' start \<and> dfs_traversal g start \<noteq> None"
proof -
  from assms have nb: "\<And>n. neighbors g n = neighbors g' n" by simp
  show ?thesis
    using bfs_loop_same_neighbors[OF nb, of "{}" "[start]" "[]"]
      dfs_loop_same_neighbors[OF nb, of "{}" "[start]" "[]"]
      bfs_loop_total[of g "{}" "[start]" "[]"] dfs_loop_total[of g "{}" "[start]" "[]"]
    by (auto simp: bfs_traversal_def dfs_traversal_def)
qed

theorem traversals_deterministic_witness:
  "(\<forall>n. neighbors G n = neighbors (rev G) n) \<and>
   bfs_traversal G ''A'' = bfs_traversal (rev G) ''A'' \<and> bfs_traversal G ''A'' \<noteq> None \<and>
   dfs_traversal G ''A'' = dfs_traversal (rev G) ''A'' \<and> dfs_traversal G ''A'' \<noteq> None"
proof -
  have "distinct (map fst G)" by (simp add: G_eq)
  moreover then have "distinct (map fst (rev G))" by (simp add: rev_map[symmetric])
  ultimately have "map_of G = map_of (rev G)" by (simp add: map_of_inject_set)
  then have h: "\<forall>n. neighbors G n = neighbors (rev G) n" by (simp add: neighbors_def)
  from h traversals_deterministic[OF h, of "''A''"] show ?thesis by blast
qed

section \<open>The order of the visits\<close>

text \<open>
  C5, as amended. On the graph of the program, the breadth-first traversal from
  \<^verbatim>\<open>'A'\<close> visits the nodes for the first time in the order A, B, C, H, D, E, F, G, I,
  and its step sequence has nine snapshots, all distinct: one for each of the nine nodes.
\<close>

theorem bfs_first_visit_order:
  "bfs_traversal G ''A'' =
     Some (Inr (snapshots_of [''A'', ''B'', ''C'', ''H'', ''D'', ''E'', ''F'', ''G'', ''I''])) \<and>
   distinct (snapshots_of [''A'', ''B'', ''C'', ''H'', ''D'', ''E'', ''F'', ''G'', ''I'']) \<and>
   length (snapshots_of [''A'', ''B'', ''C'', ''H'', ''D'', ''E'', ''F'', ''G'', ''I'']) = 9"
  by code_simp

text \<open>The number of distinct snapshots of that step sequence is nine, not eight.\<close>

theorem bfs_eight_snapshots_counterexample:
  "map_option (map_sum id (card \<circ> set)) (bfs_traversal G ''A'') = Some (Inr 9) \<and>
   map_option (map_sum id (card \<circ> set)) (bfs_traversal G ''A'') \<noteq> Some (Inr 8)"
  by code_simp

text \<open>
  C6. When the depth-first loop pops an unvisited node, it pushes the neighbours of the
  node in reverse adjacency order, and what the loop then does is to explore the
  neighbours in adjacency order: the first neighbour and all that is reached from it
  until the stack is back at its old height, then the second, and so on, before it goes
  on with the rest of the stack.
\<close>

theorem dfs_explores_in_adjacency_order:
  assumes "neighbors g node = Inr ns" and "node \<notin> visited"
  shows "dfs_loop g visited (stack @ [node]) steps =
           dfs_loop g (insert node visited) (stack @ rev ns) (steps @ [insert node visited]) \<and>
         dfs_loop g visited (stack @ [node]) steps =
           and_then (explore_in_order g ns (insert node visited) (steps @ [insert node visited]))
             (\<lambda>visited' steps'. dfs_loop g visited' stack steps')"
  using dfs_loop_snoc_visit[OF assms(2,1), of stack steps]
    dfs_loop_explore_in_order[of g "insert node visited" stack ns "steps @ [insert node visited]"]
  by simp

text \<open>
  With the adjacency order B, H from A, the nodes B and D of the subtree of B are
  visited before the nodes H and I of the subtree of H.
\<close>

theorem dfs_explores_in_adjacency_order_witness:
  "neighbors (add_edges_from [(''A'', ''B''), (''A'', ''H''), (''B'', ''D''), (''H'', ''I'')] [])
     ''A'' = Inr [''B'', ''H''] \<and>
   ''A'' \<notin> {} \<and>
   dfs_loop (add_edges_from [(''A'', ''B''), (''A'', ''H''), (''B'', ''D''), (''H'', ''I'')] [])
     {} [''A''] [] =
   and_then
     (explore_in_order
        (add_edges_from [(''A'', ''B''), (''A'', ''H''), (''B'', ''D''), (''H'', ''I'')] [])
        [''B'', ''H''] {''A''} [{''A''}])
     (\<lambda>visited' steps'.
        dfs_loop (add_edges_from [(''A'', ''B''), (''A'', ''H''), (''B'', ''D''), (''H'', ''I'')] [])
          visited' [] steps') \<and>
   dfs_loop (add_edges_from [(''A'', ''B''), (''A'', ''H''), (''B'', ''D''), (''H'', ''I'')] [])
     {''A''} [''B''] [{''A''}] =
   Some (Inr ({''A'', ''B'', ''D''}, snapshots_of [''A'', ''B'', ''D''])) \<and>
   dfs_traversal (add_edges_from [(''A'', ''B''), (''A'', ''H''), (''B'', ''D''), (''H'', ''I'')] [])
     ''A'' = Some (Inr (snapshots_of [''A'', ''B'', ''D'', ''H'', ''I'']))"
proof -
  let ?g = "add_edges_from [(''A'', ''B''), (''A'', ''H''), (''B'', ''D''), (''H'', ''I'')] []"
  have n: "neighbors ?g ''A'' = Inr [''B'', ''H'']" by code_simp
  have v: "''A'' \<notin> ({} :: string set)" by simp
  have b: "dfs_loop ?g {''A''} [''B''] [{''A''}] =
           Some (Inr ({''A'', ''B'', ''D''}, snapshots_of [''A'', ''B'', ''D'']))"
    by code_simp
  have t: "dfs_traversal ?g ''A'' = Some (Inr (snapshots_of [''A'', ''B'', ''D'', ''H'', ''I'']))"
    by code_simp
  from dfs_explores_in_adjacency_order[OF n v, of "[]" "[]", THEN conjunct2]
  have "dfs_loop ?g {} [''A''] [] =
        and_then (explore_in_order ?g [''B'', ''H''] {''A''} [{''A''}])
          (\<lambda>visited' steps'. dfs_loop ?g visited' [] steps')"
    by (simp only: append_Nil)
  with n v b t show ?thesis by blast
qed

text \<open>
  On the graph of the program, where the neighbours of A are B, C, H in this order, the
  depth-first traversal visits A, B, D, E, C, F, G, H, I.
\<close>

lemma dfs_first_visit_order:
  "dfs_traversal G ''A'' =
     Some (Inr (snapshots_of [''A'', ''B'', ''D'', ''E'', ''C'', ''F'', ''G'', ''H'', ''I'']))"
  by code_simp

section \<open>The playback\<close>

text \<open>
  The step sequences that the program computes when it starts, the state in which its
  event loop starts, and what a run of timer ticks does to a playing animation.
\<close>

lemma bfs_traversal_G:
  "bfs_traversal G ''A'' =
     Some (Inr (snapshots_of [''A'', ''B'', ''C'', ''H'', ''D'', ''E'', ''F'', ''G'', ''I'']))"
  by code_simp

lemma length_snapshots_of [simp]: "length (snapshots_of xs) = length xs"
  by (simp add: snapshots_of_def del: upt_Suc)

lemma snapshots_of_Nil [simp]: "snapshots_of xs = [] \<longleftrightarrow> xs = []"
  by (metis length_snapshots_of length_0_conv)

lemma startup_state:
  "startup = Some (Inr
     \<lparr>bfs_steps = snapshots_of [''A'', ''B'', ''C'', ''H'', ''D'', ''E'', ''F'', ''G'', ''I''],
      dfs_steps = snapshots_of [''A'', ''B'', ''D'', ''E'', ''C'', ''F'', ''G'', ''H'', ''I''],
      current_animation = None, traversal_type = BFS, current_step = 0,
      is_playing = False, is_paused = False, ax_title = Graph_Reset,
      btn_start_label = ''Start''\<rparr>)"
  by (simp add: startup_def bfs_traversal_G dfs_first_visit_order reset_graph_def)

lemmas handler_defs =
  set_bfs_def set_dfs_def toggle_play_pause_def start_animation_def pause_animation_def
  next_step_def prev_step_def reset_graph_def timer_tick_def draw_step_def
  draw_current_step_def reset_to_beginning_def active_steps_def on_key_press_def
  FuncAnimation_def pause_def resume_def Let_def








lemma active_steps_draw [simp]: "active_steps (draw_current_step s) = active_steps s"
  by (simp add: draw_current_step_def active_steps_def Let_def)

lemma draw_current_step_fields [simp]:
  "current_step (draw_current_step s) = current_step s"
  "is_playing (draw_current_step s) = is_playing s"
  "is_paused (draw_current_step s) = is_paused s"
  "current_animation (draw_current_step s) = current_animation s"
  "traversal_type (draw_current_step s) = traversal_type s"
  "bfs_steps (draw_current_step s) = bfs_steps s"
  "dfs_steps (draw_current_step s) = dfs_steps s"
  by (simp_all add: draw_current_step_def Let_def)





text \<open>
  C3, as amended. In a state whose step index is below the last index, that is
  \<^verbatim>\<open>current_step < len(steps) - 1\<close>, \<^verbatim>\<open>next_step\<close> adds one to the index; if the
  program is playing and the animation has its timer, it also pauses the animation; if
  the program is not playing, flags and animation stay as they are. In every other
  state, and so at the last index \<^verbatim>\<open>len(steps) - 1\<close>, \<^verbatim>\<open>next_step\<close> does nothing.
\<close>

theorem next_step_effect:
  "(current_step s < int (length (active_steps s)) - 1 \<longrightarrow>
      current_step (globals (next_step s)) = current_step s + 1 \<and>
      (\<forall>a running. is_playing s \<and> current_animation s = Some a \<and> event_source a = Some running \<longrightarrow>
         next_step s = pause_animation (draw_current_step (s\<lparr>current_step := current_step s + 1\<rparr>)) \<and>
         \<not> is_playing (globals (next_step s)) \<and> is_paused (globals (next_step s)) \<and>
         current_animation (globals (next_step s)) = Some (a\<lparr>event_source := Some False\<rparr>)) \<and>
      (\<not> is_playing s \<longrightarrow>
         is_paused (globals (next_step s)) = is_paused s \<and>
         current_animation (globals (next_step s)) = current_animation s \<and>
         \<not> is_playing (globals (next_step s)))) \<and>
   (\<not> current_step s < int (length (active_steps s)) - 1 \<longrightarrow> next_step s = Returned s)"
  by (auto simp: next_step_def pause_animation_def pause_def Let_def split: option.splits)

theorem next_step_effect_witness:
  "map_option (map_sum id (current_step \<circ> run [Click_Start, Timer_Tick, Timer_Tick])) startup
     = Some (Inr 1) \<and>
   map_option (map_sum id (length \<circ> active_steps \<circ> run [Click_Start, Timer_Tick, Timer_Tick])) startup
     = Some (Inr 9) \<and>
   map_option (map_sum id (is_playing \<circ> run [Click_Start, Timer_Tick, Timer_Tick])) startup
     = Some (Inr True) \<and>
   map_option (map_sum id (current_animation \<circ> run [Click_Start, Timer_Tick, Timer_Tick])) startup
     = Some (Inr (Some \<lparr>frame_seq = 2, frames = 9, event_source = Some True\<rparr>)) \<and>
   map_option (map_sum id (current_step \<circ> globals \<circ> next_step \<circ>
       run [Click_Start, Timer_Tick, Timer_Tick])) startup = Some (Inr 2) \<and>
   map_option (map_sum id (is_playing \<circ> globals \<circ> next_step \<circ>
       run [Click_Start, Timer_Tick, Timer_Tick])) startup = Some (Inr False) \<and>
   map_option (map_sum id (is_paused \<circ> globals \<circ> next_step \<circ>
       run [Click_Start, Timer_Tick, Timer_Tick])) startup = Some (Inr True) \<and>
   map_option (map_sum id (current_animation \<circ> globals \<circ> next_step \<circ>
       run [Click_Start, Timer_Tick, Timer_Tick])) startup
     = Some (Inr (Some \<lparr>frame_seq = 2, frames = 9, event_source = Some False\<rparr>))"
proof -
  let ?a = "\<lparr>frame_seq = 2, frames = 9, event_source = Some True\<rparr>"
  define s where "s = run [Click_Start, Timer_Tick, Timer_Tick]
     \<lparr>bfs_steps = snapshots_of [''A'', ''B'', ''C'', ''H'', ''D'', ''E'', ''F'', ''G'', ''I''],
      dfs_steps = snapshots_of [''A'', ''B'', ''D'', ''E'', ''C'', ''F'', ''G'', ''H'', ''I''],
      current_animation = None, traversal_type = BFS, current_step = 0,
      is_playing = False, is_paused = False, ax_title = Graph_Reset,
      btn_start_label = ''Start''\<rparr>"
  have h: "current_step s = 1" "length (active_steps s) = 9" "is_playing s"
    "current_animation s = Some ?a"
    by (simp_all add: s_def handler_defs)
  have e: "event_source ?a = Some True" by simp
  from h have lt: "current_step s < int (length (active_steps s)) - 1" by simp
  from next_step_effect[of s] lt
  have c1: "current_step (globals (next_step s)) = current_step s + 1" by blast
  from next_step_effect[of s] lt h(3,4) e
  have c2: "\<not> is_playing (globals (next_step s)) \<and> is_paused (globals (next_step s)) \<and>
    current_animation (globals (next_step s)) = Some (?a\<lparr>event_source := Some False\<rparr>)"
    by blast
  from h c1 c2
  have f: "current_step (globals (next_step s)) = 2" "is_playing (globals (next_step s)) = False"
    "is_paused (globals (next_step s)) = True"
    "current_animation (globals (next_step s))
       = Some \<lparr>frame_seq = 2, frames = 9, event_source = Some False\<rparr>"
    "is_playing s = True"
    by simp_all
  show ?thesis unfolding startup_state
    by (simp only: option.map map_sum.simps o_apply id_apply s_def[symmetric] h(1,2,4) f simp_thms)
qed

text \<open>
  At the last index \<^verbatim>\<open>next_step\<close> does nothing, although the index is below the length
  of the step sequence: after eight clicks on the next button the index is 8, the step
  sequence has 9 entries, and one more \<^verbatim>\<open>next_step\<close> leaves the index at 8.
\<close>

theorem next_at_last_step_counterexample:
  "map_option (map_sum id (current_step \<circ>
      run [Click_Next, Click_Next, Click_Next, Click_Next,
           Click_Next, Click_Next, Click_Next, Click_Next])) startup = Some (Inr 8) \<and>
   map_option (map_sum id (length \<circ> active_steps \<circ>
      run [Click_Next, Click_Next, Click_Next, Click_Next,
           Click_Next, Click_Next, Click_Next, Click_Next])) startup = Some (Inr 9) \<and>
   map_option (map_sum id (current_step \<circ> globals \<circ> next_step \<circ>
      run [Click_Next, Click_Next, Click_Next, Click_Next,
           Click_Next, Click_Next, Click_Next, Click_Next])) startup = Some (Inr 8)"
  by (simp add: startup_state handler_defs)




lemma app_inv_alt:
  "app_inv s =
     (0 \<le> current_step s \<and> current_step s < int (length (bfs_steps s)) \<and>
      length (dfs_steps s) = length (bfs_steps s) \<and>
      (\<forall>a. current_animation s = Some a \<longrightarrow> frames a = length (bfs_steps s)) \<and>
      ax_title s \<noteq> Complete BFS \<and> ax_title s \<noteq> Complete DFS)"
  by (cases "traversal_type s"; cases "current_animation s")
     (auto simp: app_inv_def active_steps_def)

lemma app_inv_active: "app_inv s \<Longrightarrow> length (active_steps s) = length (bfs_steps s)"
  by (simp add: app_inv_alt active_steps_def)

lemma app_inv_set_bfs: "app_inv s \<Longrightarrow> app_inv (set_bfs s)"
  by (auto simp: app_inv_alt set_bfs_def Let_def)

lemma app_inv_set_dfs: "app_inv s \<Longrightarrow> app_inv (set_dfs s)"
  by (auto simp: app_inv_alt set_dfs_def Let_def)

lemma app_inv_reset_graph: "app_inv s \<Longrightarrow> app_inv (reset_graph s)"
  by (auto simp: app_inv_alt reset_graph_def Let_def split: option.splits)

lemma app_inv_pause_animation: "app_inv s \<Longrightarrow> app_inv (globals (pause_animation s))"
  by (auto simp: app_inv_alt pause_animation_def pause_def split: option.splits)

lemma app_inv_start_animation: "app_inv s \<Longrightarrow> app_inv (globals (start_animation s))"
  by (auto simp: app_inv_alt start_animation_def resume_def reset_to_beginning_def
                 FuncAnimation_def active_steps_def Let_def
           split: option.splits)

lemma app_inv_draw_step:
  "app_inv s \<Longrightarrow> 0 \<le> i \<Longrightarrow> i < int (length (bfs_steps s)) \<Longrightarrow>
   app_inv (draw_current_step (s\<lparr>current_step := i\<rparr>))"
  by (auto simp: app_inv_alt draw_current_step_def active_steps_def Let_def)

lemma app_inv_next_step: "app_inv s \<Longrightarrow> app_inv (globals (next_step s))"
proof -
  assume a: "app_inv s"
  show ?thesis
  proof (cases "current_step s < int (length (active_steps s)) - 1")
    case True
    from a have "0 \<le> current_step s" by (simp add: app_inv_alt)
    with True a have "app_inv (draw_current_step (s\<lparr>current_step := current_step s + 1\<rparr>))"
      by (intro app_inv_draw_step) (simp_all add: app_inv_active)
    then show ?thesis using True
      by (simp add: next_step_def Let_def app_inv_pause_animation)
  next
    case False
    with a show ?thesis by (simp add: next_step_def Let_def)
  qed
qed

lemma app_inv_prev_step: "app_inv s \<Longrightarrow> app_inv (globals (prev_step s))"
proof -
  assume a: "app_inv s"
  show ?thesis
  proof (cases "current_step s > 0")
    case True
    from a have "current_step s < int (length (bfs_steps s))" by (simp add: app_inv_alt)
    with True a have "app_inv (draw_current_step (s\<lparr>current_step := current_step s - 1\<rparr>))"
      by (intro app_inv_draw_step) simp_all
    then show ?thesis using True
      by (simp add: prev_step_def Let_def app_inv_pause_animation)
  next
    case False
    with a show ?thesis by (simp add: prev_step_def)
  qed
qed

lemma app_inv_timer_tick: "app_inv s \<Longrightarrow> app_inv (timer_tick s)"
proof -
  assume a: "app_inv s"
  show ?thesis
  proof (cases "current_animation s")
    case None
    with a show ?thesis by (simp add: timer_tick_def)
  next
    case (Some an)
    show ?thesis
    proof (cases "event_source an = Some True \<and> frame_seq an < frames an")
      case True
      let ?s = "s\<lparr>current_animation := Some (an\<lparr>frame_seq := Suc (frame_seq an)\<rparr>)\<rparr>"
      from a Some have i: "app_inv ?s"
        by (simp add: app_inv_alt)
      from a Some True have "int (frame_seq an) < int (length (bfs_steps ?s))"
        by (simp add: app_inv_alt)
      from app_inv_draw_step[OF i _ this] Some True show ?thesis
        by (simp add: timer_tick_def draw_step_def)
    next
      case False
      with a Some show ?thesis
        by (auto simp: timer_tick_def app_inv_alt)
    qed
  qed
qed

lemma app_inv_toggle: "app_inv s \<Longrightarrow> app_inv (globals (toggle_play_pause s))"
  by (simp add: toggle_play_pause_def app_inv_pause_animation app_inv_start_animation)

lemma app_inv_handle_event: "app_inv s \<Longrightarrow> app_inv (globals (handle_event e s))"
  by (cases e)
     (simp_all add: app_inv_set_bfs app_inv_set_dfs app_inv_toggle app_inv_reset_graph
        app_inv_prev_step app_inv_next_step app_inv_timer_tick on_key_press_def)

lemma app_inv_run: "app_inv s \<Longrightarrow> app_inv (run es s)"
  by (induction es arbitrary: s) (simp_all add: app_inv_handle_event)



text \<open>
  C8. From the state in which the event loop starts, after every sequence of events the
  step index is at least 0 and at most \<^verbatim>\<open>len(steps) - 1\<close>, for the step sequence of
  the selected traversal, and the title is not the title of the \<^verbatim>\<open>else\<close> branch of
  \<^verbatim>\<open>draw_current_step\<close>. The state after every prefix of the events is such a state,
  so no call of \<^verbatim>\<open>draw_current_step\<close> takes that branch.
\<close>

theorem step_index_in_range:
  "\<exists>s0. startup = Some (Inr s0) \<and>
     (\<forall>es. 0 \<le> current_step (run es s0) \<and>
           current_step (run es s0) \<le> int (length (active_steps (run es s0))) - 1 \<and>
           ax_title (run es s0) \<noteq> Complete BFS \<and> ax_title (run es s0) \<noteq> Complete DFS)"
proof (intro exI conjI allI)
  show "startup = Some (Inr
     \<lparr>bfs_steps = snapshots_of [''A'', ''B'', ''C'', ''H'', ''D'', ''E'', ''F'', ''G'', ''I''],
      dfs_steps = snapshots_of [''A'', ''B'', ''D'', ''E'', ''C'', ''F'', ''G'', ''H'', ''I''],
      current_animation = None, traversal_type = BFS, current_step = 0,
      is_playing = False, is_paused = False, ax_title = Graph_Reset,
      btn_start_label = ''Start''\<rparr>)" by (rule startup_state)
next
  fix es
  have "app_inv
     \<lparr>bfs_steps = snapshots_of [''A'', ''B'', ''C'', ''H'', ''D'', ''E'', ''F'', ''G'', ''I''],
      dfs_steps = snapshots_of [''A'', ''B'', ''D'', ''E'', ''C'', ''F'', ''G'', ''H'', ''I''],
      current_animation = None, traversal_type = BFS, current_step = 0,
      is_playing = False, is_paused = False, ax_title = Graph_Reset,
      btn_start_label = ''Start''\<rparr>" by (simp add: app_inv_alt)
  then have "app_inv (run es
     \<lparr>bfs_steps = snapshots_of [''A'', ''B'', ''C'', ''H'', ''D'', ''E'', ''F'', ''G'', ''I''],
      dfs_steps = snapshots_of [''A'', ''B'', ''D'', ''E'', ''C'', ''F'', ''G'', ''H'', ''I''],
      current_animation = None, traversal_type = BFS, current_step = 0,
      is_playing = False, is_paused = False, ax_title = Graph_Reset,
      btn_start_label = ''Start''\<rparr>)" by (rule app_inv_run)
  then show "0 \<le> current_step (run es
     \<lparr>bfs_steps = snapshots_of [''A'', ''B'', ''C'', ''H'', ''D'', ''E'', ''F'', ''G'', ''I''],
      dfs_steps = snapshots_of [''A'', ''B'', ''D'', ''E'', ''C'', ''F'', ''G'', ''H'', ''I''],
      current_animation = None, traversal_type = BFS, current_step = 0,
      is_playing = False, is_paused = False, ax_title = Graph_Reset,
      btn_start_label = ''Start''\<rparr>)"
    and "current_step (run es
     \<lparr>bfs_steps = snapshots_of [''A'', ''B'', ''C'', ''H'', ''D'', ''E'', ''F'', ''G'', ''I''],
      dfs_steps = snapshots_of [''A'', ''B'', ''D'', ''E'', ''C'', ''F'', ''G'', ''H'', ''I''],
      current_animation = None, traversal_type = BFS, current_step = 0,
      is_playing = False, is_paused = False, ax_title = Graph_Reset,
      btn_start_label = ''Start''\<rparr>) \<le> int (length (active_steps (run es
     \<lparr>bfs_steps = snapshots_of [''A'', ''B'', ''C'', ''H'', ''D'', ''E'', ''F'', ''G'', ''I''],
      dfs_steps = snapshots_of [''A'', ''B'', ''D'', ''E'', ''C'', ''F'', ''G'', ''H'', ''I''],
      current_animation = None, traversal_type = BFS, current_step = 0,
      is_playing = False, is_paused = False, ax_title = Graph_Reset,
      btn_start_label = ''Start''\<rparr>))) - 1"
    and "ax_title (run es
     \<lparr>bfs_steps = snapshots_of [''A'', ''B'', ''C'', ''H'', ''D'', ''E'', ''F'', ''G'', ''I''],
      dfs_steps = snapshots_of [''A'', ''B'', ''D'', ''E'', ''C'', ''F'', ''G'', ''H'', ''I''],
      current_animation = None, traversal_type = BFS, current_step = 0,
      is_playing = False, is_paused = False, ax_title = Graph_Reset,
      btn_start_label = ''Start''\<rparr>) \<noteq> Complete BFS"
    and "ax_title (run es
     \<lparr>bfs_steps = snapshots_of [''A'', ''B'', ''C'', ''H'', ''D'', ''E'', ''F'', ''G'', ''I''],
      dfs_steps = snapshots_of [''A'', ''B'', ''D'', ''E'', ''C'', ''F'', ''G'', ''H'', ''I''],
      current_animation = None, traversal_type = BFS, current_step = 0,
      is_playing = False, is_paused = False, ax_title = Graph_Reset,
      btn_start_label = ''Start''\<rparr>) \<noteq> Complete DFS"
    by (simp_all add: app_inv_def)
qed

end
